theory Spec2Isabelle
  imports Complex_Main "HOL-Library.Sublist" "HOL-Library.Multiset"
begin

section \<open>Data model of the MOSA strategy\<close>

text \<open>
  Chromosomes are values of a type \<open>'c\<close>, goals (fitness functions) of a type \<open>'g\<close>.
  Python's \<open>==\<close> on chromosomes (used by \<open>in\<close> and \<open>list.remove\<close>) is HOL equality.
  Python mutates chromosomes in place; every chromosome the strategy mutates is a fresh
  clone or a fresh product of the factory, so a mutation is modelled as a function that
  returns the mutated chromosome.
\<close>

datatype error = IndexError

text \<open>The fields of \<open>config.configuration\<close> that the strategy reads.\<close>

record configuration =
  population :: int
  crossover_rate :: real
  test_insertion_probability :: real

text \<open>
  Modelled from the spec: the class \<open>Archive\<close> is not among the sources. The strategy
  reads its two views: \<open>covered_goals\<close>, the goals that some archived chromosome covers,
  and \<open>solutions\<close>, the archived chromosomes (here already in the order of
  \<open>list(self._archive.solutions)\<close>).
\<close>

record ('g, 'c) archive =
  covered_goals :: "'g set"
  solutions :: "'c list"

text \<open>The attributes of \<open>self\<close> that the methods below read or write.\<close>

record ('g, 'c) strategy =
  s_archive :: "('g, 'c) archive"
  s_population :: "'c list"
  s_fitness_functions :: "'g list"

text \<open>
  The collaborators whose code is outside the strategy: the selection function, the
  crossover function, the chromosome factory, the chromosome's own methods and the module
  \<open>randomness\<close>. Each is a parameter. Those that draw random numbers or keep state
  take and return a world \<open>'w\<close>. \<open>cross_over\<close> returns \<open>None\<close> when it raises
  \<open>ConstructionFailedException\<close>, otherwise the two chromosomes as it left them.
\<close>

record ('g, 'c, 'w) collaborators =
  select :: "'c list \<Rightarrow> 'w \<Rightarrow> 'c list \<times> 'w"
  clone :: "'c \<Rightarrow> 'c"
  cross_over :: "'c \<Rightarrow> 'c \<Rightarrow> 'w \<Rightarrow> ('c \<times> 'c) option \<times> 'w"
  mutate :: "'c \<Rightarrow> 'w \<Rightarrow> 'c \<times> 'w"
  has_changed :: "'c \<Rightarrow> bool"
  size_c :: "'c \<Rightarrow> int"
  get_chromosome :: "'w \<Rightarrow> 'c \<times> 'w"
  add_fitness_function :: "'c \<Rightarrow> 'g \<Rightarrow> 'c"
  next_float :: "'w \<Rightarrow> real \<times> 'w"
  next_bool :: "'w \<Rightarrow> bool \<times> 'w"
  choice :: "'c list \<Rightarrow> 'w \<Rightarrow> 'c \<times> 'w"
  get_fitness :: "'c \<Rightarrow> real"
  get_fitness_for :: "'c \<Rightarrow> 'g \<Rightarrow> real"

text \<open>
  The calls a run makes to its collaborators are recorded in order, next to the world,
  so that "called once", "not retried" and "so many iterations" can be stated.
  \<open>Mutate c\<close> is a call of \<open>mutate\<close> on the chromosome \<open>c\<close>, \<open>CrossOver a b\<close> a call
  of \<open>cross_over\<close> on \<open>a\<close> and \<open>b\<close>.
\<close>

datatype 'c call =
  Select | NextFloat | CrossOver 'c 'c | Mutate 'c | GetChromosome | NextBool | Choice

record ('c, 'w) run =
  world :: 'w
  calls :: "'c call list"

definition call_select ::
  "('g, 'c, 'w) collaborators \<Rightarrow> 'c list \<Rightarrow> ('c, 'w) run \<Rightarrow> 'c list \<times> ('c, 'w) run" where
  "call_select env pop r =
     (case select env pop (world r) of
        (xs, w) \<Rightarrow> (xs, \<lparr>world = w, calls = calls r @ [Select]\<rparr>))"

definition call_next_float ::
  "('g, 'c, 'w) collaborators \<Rightarrow> ('c, 'w) run \<Rightarrow> real \<times> ('c, 'w) run" where
  "call_next_float env r =
     (case next_float env (world r) of
        (x, w) \<Rightarrow> (x, \<lparr>world = w, calls = calls r @ [NextFloat]\<rparr>))"

definition call_next_bool ::
  "('g, 'c, 'w) collaborators \<Rightarrow> ('c, 'w) run \<Rightarrow> bool \<times> ('c, 'w) run" where
  "call_next_bool env r =
     (case next_bool env (world r) of
        (b, w) \<Rightarrow> (b, \<lparr>world = w, calls = calls r @ [NextBool]\<rparr>))"

definition call_cross_over ::
  "('g, 'c, 'w) collaborators \<Rightarrow> 'c \<Rightarrow> 'c \<Rightarrow> ('c, 'w) run
     \<Rightarrow> ('c \<times> 'c) option \<times> ('c, 'w) run" where
  "call_cross_over env a b r =
     (case cross_over env a b (world r) of
        (res, w) \<Rightarrow> (res, \<lparr>world = w, calls = calls r @ [CrossOver a b]\<rparr>))"

definition call_mutate ::
  "('g, 'c, 'w) collaborators \<Rightarrow> 'c \<Rightarrow> ('c, 'w) run \<Rightarrow> 'c \<times> ('c, 'w) run" where
  "call_mutate env c r =
     (case mutate env c (world r) of
        (c', w) \<Rightarrow> (c', \<lparr>world = w, calls = calls r @ [Mutate c]\<rparr>))"

definition call_get_chromosome ::
  "('g, 'c, 'w) collaborators \<Rightarrow> ('c, 'w) run \<Rightarrow> 'c \<times> ('c, 'w) run" where
  "call_get_chromosome env r =
     (case get_chromosome env (world r) of
        (c, w) \<Rightarrow> (c, \<lparr>world = w, calls = calls r @ [GetChromosome]\<rparr>))"

text \<open>
  \<open>randomness.choice\<close> draws from a sequence as Python's \<open>random.choice\<close> does, which
  raises \<open>IndexError\<close> on an empty sequence.
\<close>

definition call_choice ::
  "('g, 'c, 'w) collaborators \<Rightarrow> 'c list \<Rightarrow> ('c, 'w) run \<Rightarrow> error + 'c \<times> ('c, 'w) run" where
  "call_choice env xs r =
     (if xs = [] then Inl IndexError
      else case choice env xs (world r) of
        (c, w) \<Rightarrow> Inr (c, \<lparr>world = w, calls = calls r @ [Choice]\<rparr>))"

text \<open>Python's \<open>xs[0]\<close>.\<close>

definition item_0 :: "'a list \<Rightarrow> error + 'a" where
  "item_0 xs = (if xs = [] then Inl IndexError else Inr (hd xs))"

text \<open>
  Python's \<open>int(x)\<close> on a float truncates towards zero; \<open>range(k)\<close> has \<open>k\<close>
  elements for a positive \<open>k\<close> and none otherwise. The float arithmetic of the two
  loop bounds is modelled in exact real arithmetic.
\<close>

definition py_int :: "real \<Rightarrow> int" where
  "py_int x = (if 0 \<le> x then \<lfloor>x\<rfloor> else \<lceil>x\<rceil>)"

fun for_range :: "nat \<Rightarrow> ('s \<Rightarrow> error + 's) \<Rightarrow> 's \<Rightarrow> error + 's" where
  "for_range 0 body s = Inr s"
| "for_range (Suc n) body s =
     (case body s of Inl e \<Rightarrow> Inl e | Inr s' \<Rightarrow> for_range n body s')"

section \<open>\<open>_mutate\<close> and \<open>_breed_next_generation\<close>\<close>

text \<open>\<open>_mutate\<close> (lines 85-90).\<close>

definition mosa_mutate ::
  "('g, 'c, 'w) collaborators \<Rightarrow> 'c \<Rightarrow> ('c, 'w) run \<Rightarrow> 'c \<times> ('c, 'w) run" where
  "mosa_mutate env offspring r =
     (case call_mutate env offspring r of
        (offspring', r') \<Rightarrow>
          if \<not> has_changed env offspring' then call_mutate env offspring' r'
          else (offspring', r'))"

text \<open>The test \<open>if c.has_changed() and c.size() > 0: offspring_population.append(c)\<close>.\<close>

definition keep_offspring :: "('g, 'c, 'w) collaborators \<Rightarrow> 'c \<Rightarrow> 'c list \<Rightarrow> 'c list" where
  "keep_offspring env c offspring_population =
     (if has_changed env c \<and> 0 < size_c env c then offspring_population @ [c]
      else offspring_population)"

text \<open>Lines 54-62: mutate and keep the first offspring, then the second.\<close>

definition mutate_pair ::
  "('g, 'c, 'w) collaborators \<Rightarrow> 'c \<Rightarrow> 'c \<Rightarrow> 'c list \<Rightarrow> ('c, 'w) run
     \<Rightarrow> 'c list \<times> ('c, 'w) run" where
  "mutate_pair env offspring_1 offspring_2 offspring_population r =
     (case mosa_mutate env offspring_1 r of
        (o1, r1) \<Rightarrow>
          (case mosa_mutate env offspring_2 r1 of
             (o2, r2) \<Rightarrow>
               (keep_offspring env o2 (keep_offspring env o1 offspring_population), r2)))"

text \<open>
  One iteration of the first loop (lines 41-62). A crossover that raises
  \<open>ConstructionFailedException\<close> ends the iteration (\<open>continue\<close>).
\<close>

definition breed_pair ::
  "('g, 'c, 'w) collaborators \<Rightarrow> configuration \<Rightarrow> ('g, 'c) strategy
     \<Rightarrow> 'c list \<times> ('c, 'w) run \<Rightarrow> error + 'c list \<times> ('c, 'w) run" where
  "breed_pair env cfg self st =
     (case st of (offspring_population, r) \<Rightarrow>
      case call_select env (s_population self) r of (selected_1, r1) \<Rightarrow>
      case item_0 selected_1 of Inl e \<Rightarrow> Inl e | Inr parent_1 \<Rightarrow>
      case call_select env (s_population self) r1 of (selected_2, r2) \<Rightarrow>
      case item_0 selected_2 of Inl e \<Rightarrow> Inl e | Inr parent_2 \<Rightarrow>
      case call_next_float env r2 of (x, r3) \<Rightarrow>
        if x \<le> crossover_rate cfg then
          (case call_cross_over env (clone env parent_1) (clone env parent_2) r3 of
             (None, r4) \<Rightarrow> Inr (offspring_population, r4)
           | (Some (offspring_1, offspring_2), r4) \<Rightarrow>
               Inr (mutate_pair env offspring_1 offspring_2 offspring_population r4))
        else Inr (mutate_pair env (clone env parent_1) (clone env parent_2)
                    offspring_population r3))"

text \<open>
  One iteration of the second loop (lines 71-80). \<open>or\<close> evaluates \<open>next_bool\<close> only
  when some goal is covered.
\<close>

definition inject_candidate ::
  "('g, 'c, 'w) collaborators \<Rightarrow> ('g, 'c) strategy
     \<Rightarrow> 'c list \<times> ('c, 'w) run \<Rightarrow> error + 'c list \<times> ('c, 'w) run" where
  "inject_candidate env self st =
     (case st of (offspring_population, r) \<Rightarrow>
      case (if covered_goals (s_archive self) = {} then (True, r) else call_next_bool env r) of
        (fresh, r1) \<Rightarrow>
          if fresh then
            (case call_get_chromosome env r1 of
               (tch, r2) \<Rightarrow>
                 Inr (keep_offspring env
                        (foldl (add_fitness_function env) tch (s_fitness_functions self))
                        offspring_population, r2))
          else
            (case call_choice env (solutions (s_archive self)) r1 of
               Inl e \<Rightarrow> Inl e
             | Inr (chosen, r2) \<Rightarrow>
                 (case call_mutate env (clone env chosen) r2 of
                    (tch, r3) \<Rightarrow> Inr (keep_offspring env tch offspring_population, r3))))"

text \<open>The two loop bounds (line 40 and lines 65-70).\<close>

definition breeding_iterations :: "configuration \<Rightarrow> nat" where
  "breeding_iterations cfg = nat (py_int (real_of_int (population cfg) / 2))"

definition injection_iterations :: "configuration \<Rightarrow> nat" where
  "injection_iterations cfg =
     nat (py_int (real_of_int (population cfg) * test_insertion_probability cfg))"

text \<open>\<open>_breed_next_generation\<close> (lines 38-83).\<close>

definition breed_next_generation ::
  "('g, 'c, 'w) collaborators \<Rightarrow> configuration \<Rightarrow> ('g, 'c) strategy \<Rightarrow> ('c, 'w) run
     \<Rightarrow> error + 'c list \<times> ('c, 'w) run" where
  "breed_next_generation env cfg self r =
     (case for_range (breeding_iterations cfg) (breed_pair env cfg self) ([], r) of
        Inl e \<Rightarrow> Inl e
      | Inr st \<Rightarrow> for_range (injection_iterations cfg) (inject_candidate env self) st)"


fun is_mutate :: "'c call \<Rightarrow> bool" where
  "is_mutate (Mutate _) = True"
| "is_mutate _ = False"


definition count_calls :: "('c call \<Rightarrow> bool) \<Rightarrow> ('c, 'w) run \<Rightarrow> nat" where
  "count_calls p r = length (filter p (calls r))"

section \<open>\<open>_get_non_dominated_solutions\<close>\<close>

text \<open>
  A comparator is the function \<open>compare\<close> of a \<open>DominanceComparator\<close>: a negative
  result says that the first argument dominates the second, a positive one that the
  second dominates the first.

  The inner loop (lines 102-107) walks \<open>next_front\<close> and accumulates
  \<open>dominated_solutions\<close> and \<open>is_dominated\<close>.
\<close>

fun scan_front :: "('c \<Rightarrow> 'c \<Rightarrow> int) \<Rightarrow> 'c \<Rightarrow> 'c list \<Rightarrow> 'c list \<times> bool \<Rightarrow> 'c list \<times> bool" where
  "scan_front cmp solution [] acc = acc"
| "scan_front cmp solution (best # bs) (dominated_solutions, is_dominated) =
     (let flag = cmp solution best;
          dominated_solutions' =
            (if flag < 0 then dominated_solutions @ [best] else dominated_solutions);
          is_dominated' = (if flag > 0 then True else is_dominated)
      in scan_front cmp solution bs (dominated_solutions', is_dominated'))"

text \<open>
  The removal loop (lines 111-113): \<open>list.remove\<close> deletes the first element equal
  to its argument, which is \<open>remove1\<close>.
\<close>

fun remove_dominated :: "'c list \<Rightarrow> 'c list \<Rightarrow> 'c list" where
  "remove_dominated [] next_front = next_front"
| "remove_dominated (dominated_solution # ds) next_front =
     remove_dominated ds
       (if dominated_solution \<in> set next_front then remove1 dominated_solution next_front
        else next_front)"

text \<open>The outer loop (lines 99-113); the last argument is \<open>next_front\<close>.\<close>

fun front_loop :: "('c \<Rightarrow> 'c \<Rightarrow> int) \<Rightarrow> 'c list \<Rightarrow> 'c list \<Rightarrow> 'c list" where
  "front_loop cmp [] next_front = next_front"
| "front_loop cmp (solution # rest) next_front =
     (case scan_front cmp solution next_front ([], False) of
        (dominated_solutions, is_dominated) \<Rightarrow>
          if is_dominated then front_loop cmp rest next_front
          else front_loop cmp rest (remove_dominated dominated_solutions (next_front @ [solution])))"

text \<open>The body of \<open>_get_non_dominated_solutions\<close> for a given comparator.\<close>

definition non_dominated_solutions :: "('c \<Rightarrow> 'c \<Rightarrow> int) \<Rightarrow> 'c list \<Rightarrow> 'c list" where
  "non_dominated_solutions cmp sols = front_loop cmp sols []"

text \<open>
  A comparator that is a strict partial order: the relation "\<open>a\<close> dominates \<open>b\<close>"
  (\<open>cmp a b < 0\<close>) is irreflexive and transitive, and the positive sign is the converse
  of the negative one.
\<close>

definition strict_partial_order_cmp :: "('c \<Rightarrow> 'c \<Rightarrow> int) \<Rightarrow> bool" where
  "strict_partial_order_cmp cmp \<longleftrightarrow>
     (\<forall>a. \<not> cmp a a < 0) \<and>
     (\<forall>a b c. cmp a b < 0 \<longrightarrow> cmp b c < 0 \<longrightarrow> cmp a c < 0) \<and>
     (\<forall>a b. 0 < cmp a b \<longleftrightarrow> cmp b a < 0)"

text \<open>
  Modelled from the spec: the class \<open>DominanceComparator\<close> is not among the sources.
  It is built from a set of goals, its objectives. \<open>compare\<close> returns \<open>-1\<close> if the
  first chromosome dominates the second, \<open>1\<close> if the second dominates the first and
  \<open>0\<close> otherwise; \<open>a\<close> dominates \<open>b\<close> iff \<open>a\<close> is at least as good on every objective
  and strictly better on one, a lower fitness being better.
\<close>

record 'g dominance_comparator =
  objectives :: "'g set"

definition DominanceComparator :: "'g set \<Rightarrow> 'g dominance_comparator" where
  "DominanceComparator goals = \<lparr>objectives = goals\<rparr>"

definition dominates :: "('c \<Rightarrow> 'g \<Rightarrow> real) \<Rightarrow> 'g set \<Rightarrow> 'c \<Rightarrow> 'c \<Rightarrow> bool" where
  "dominates fit goals a b \<longleftrightarrow>
     (\<forall>g \<in> goals. fit a g \<le> fit b g) \<and> (\<exists>g \<in> goals. fit a g < fit b g)"

definition compare :: "('c \<Rightarrow> 'g \<Rightarrow> real) \<Rightarrow> 'g dominance_comparator \<Rightarrow> 'c \<Rightarrow> 'c \<Rightarrow> int" where
  "compare fit comparator a b =
     (if dominates fit (objectives comparator) a b then - 1
      else if dominates fit (objectives comparator) b a then 1 else 0)"

text \<open>The comparator that \<open>_get_non_dominated_solutions\<close> builds (lines 95-97).\<close>

definition comparator_of :: "('g, 'c) strategy \<Rightarrow> 'g dominance_comparator" where
  "comparator_of self = DominanceComparator (covered_goals (s_archive self))"

text \<open>\<open>_get_non_dominated_solutions\<close> (lines 92-114).\<close>

definition get_non_dominated_solutions ::
  "('g, 'c, 'w) collaborators \<Rightarrow> ('g, 'c) strategy \<Rightarrow> 'c list \<Rightarrow> 'c list" where
  "get_non_dominated_solutions env self sols =
     non_dominated_solutions (compare (get_fitness_for env) (comparator_of self)) sols"

text \<open>
  In the words of the specification: the goals not yet covered, of the goals
  (\<open>self._fitness_functions\<close>) the strategy works on.
\<close>

definition uncovered_goals :: "('g, 'c) strategy \<Rightarrow> 'g set" where
  "uncovered_goals self = set (s_fitness_functions self) - covered_goals (s_archive self)"

section \<open>\<open>_sort_population\<close>\<close>

text \<open>
  \<open>_sort_population\<close> (lines 138-140). \<open>list.sort\<close> with a key is a stable sort
  by that key, as \<open>sort_key\<close> is.
\<close>

definition sort_population ::
  "('g, 'c, 'w) collaborators \<Rightarrow> ('g, 'c) strategy \<Rightarrow> ('g, 'c) strategy" where
  "sort_population env self =
     self\<lparr>s_population := sort_key (get_fitness env) (s_population self)\<rparr>"

section \<open>The identifier counter of \<open>AssertionToAstVisitor\<close>\<close>

text \<open>
  \<open>_obj_index\<close> is an attribute of the class, read and written as
  \<open>AssertionToAstVisitor._obj_index\<close>: one counter for the whole process.
  \<open>_obj_stack\<close> is an attribute of each instance; instances are numbered.
\<close>

record process =
  obj_index :: int
  obj_stack :: "nat \<Rightarrow> string list"

definition COMPARISON_OBJECT_IDENTIFIER :: string where
  "COMPARISON_OBJECT_IDENTIFIER = ''obj''"

text \<open>Python's \<open>str\<close> on an \<open>int\<close>: decimal digits, a minus sign when negative.\<close>

definition digit_char :: "nat \<Rightarrow> char" where
  "digit_char d = ''0123456789'' ! d"

fun str_nat :: "nat \<Rightarrow> string" where
  "str_nat n = (if n < 10 then [digit_char n] else str_nat (n div 10) @ [digit_char (n mod 10)])"

definition str_int :: "int \<Rightarrow> string" where
  "str_int i = (if i < 0 then CHR ''-'' # str_nat (nat (- i)) else str_nat (nat i))"

text \<open>The part of \<open>__init__\<close> that touches the stack (line 49); the counter is not touched.\<close>

definition init_visitor :: "nat \<Rightarrow> process \<Rightarrow> process" where
  "init_visitor self p = p\<lparr>obj_stack := (obj_stack p)(self := [])\<rparr>"

text \<open>\<open>_get_comparison_object_name\<close> (lines 411-412).\<close>

definition get_comparison_object_name :: "process \<Rightarrow> string" where
  "get_comparison_object_name p = COMPARISON_OBJECT_IDENTIFIER @ str_int (obj_index p)"

text \<open>\<open>_get_comparison_object\<close> (lines 405-409) on the instance \<open>self\<close>.\<close>

definition get_comparison_object :: "nat \<Rightarrow> process \<Rightarrow> string \<times> process" where
  "get_comparison_object self p =
     (let obj_id = get_comparison_object_name p;
          p1 = p\<lparr>obj_index := obj_index p + 1\<rparr>;
          p2 = p1\<lparr>obj_stack := (obj_stack p1)(self := obj_stack p1 self @ [obj_id])\<rparr>
      in (obj_id, p2))"

text \<open>
  A history of a process: visitors are created and \<open>_get_comparison_object\<close> is called
  on them, in any order. \<open>run_visitors\<close> returns the identifiers in the order in which
  the calls returned them.
\<close>

datatype visitor_op = Init nat | GetComparisonObject nat

fun run_visitors :: "visitor_op list \<Rightarrow> process \<Rightarrow> string list \<times> process" where
  "run_visitors [] p = ([], p)"
| "run_visitors (Init self # ops) p = run_visitors ops (init_visitor self p)"
| "run_visitors (GetComparisonObject self # ops) p =
     (case get_comparison_object self p of
        (obj_id, p') \<Rightarrow> (case run_visitors ops p' of (ids, p'') \<Rightarrow> (obj_id # ids, p'')))"

fun is_get :: "visitor_op \<Rightarrow> bool" where
  "is_get (GetComparisonObject _) = True"
| "is_get (Init _) = False"

section \<open>A concrete instance\<close>

text \<open>
  A small instance of the collaborators, on which the definitions can be run: a test case
  chromosome with a number of statements, its changed flag and one fitness value per goal
  (goals are numbered); the world is a counter that every collaborator call advances.
\<close>

record test_case =
  statements :: nat
  changed :: bool
  fitness_values :: "real list"

definition example_env :: "(nat, test_case, nat) collaborators" where
  "example_env = \<lparr>
     select = (\<lambda>pop w. (take 1 pop, w + 1)),
     clone = (\<lambda>c. c\<lparr>changed := False\<rparr>),
     cross_over = (\<lambda>a b w.
       (if 3 < statements a + statements b then None
        else Some (a\<lparr>changed := True\<rparr>, b\<lparr>changed := True\<rparr>), w + 1)),
     mutate = (\<lambda>c w.
       (if even w then c else c\<lparr>statements := statements c + 1, changed := True\<rparr>, w + 1)),
     has_changed = changed,
     size_c = (\<lambda>c. int (statements c)),
     get_chromosome = (\<lambda>w. (\<lparr>statements = 1, changed = True, fitness_values = []\<rparr>, w + 1)),
     add_fitness_function = (\<lambda>c g. c\<lparr>fitness_values := fitness_values c @ [1]\<rparr>),
     next_float = (\<lambda>w. (1 / 2, w + 1)),
     next_bool = (\<lambda>w. (even w, w + 1)),
     choice = (\<lambda>xs w. (xs ! (w mod length xs), w + 1)),
     get_fitness = (\<lambda>c. sum_list (fitness_values c)),
     get_fitness_for = (\<lambda>c g. if g < length (fitness_values c) then fitness_values c ! g else 0)
   \<rparr>"

definition tc :: "nat \<Rightarrow> real list \<Rightarrow> test_case" where
  "tc n fs = \<lparr>statements = n, changed = True, fitness_values = fs\<rparr>"

text \<open>
  A strategy with two goals, of which goal 0 is covered: the first chromosome covers it
  with distance 5 to goal 1, the second covers it with distance 1 to goal 1.
\<close>

definition example_strategy :: "(nat, test_case) strategy" where
  "example_strategy = \<lparr>
     s_archive = \<lparr>covered_goals = {0}, solutions = [tc 1 [0, 5]]\<rparr>,
     s_population = [tc 1 [0, 5], tc 2 [0, 1]],
     s_fitness_functions = [0, 1]
   \<rparr>"

definition example_run :: "(test_case, nat) run" where
  "example_run = \<lparr>world = 0, calls = []\<rparr>"

text \<open>Population size 2, no crossover, an insertion probability of one half.\<close>

definition example_config :: configuration where
  "example_config = \<lparr>population = 2, crossover_rate = 0, test_insertion_probability = 1 / 2\<rparr>"

text \<open>Population size 2, crossover always attempted, nothing injected.\<close>

definition crossover_config :: configuration where
  "crossover_config = \<lparr>population = 2, crossover_rate = 1, test_insertion_probability = 0\<rparr>"

text \<open>What \<open>_breed_next_generation\<close> returns on this instance, and the run it leaves.\<close>

definition example_offspring :: "test_case list" where
  "example_offspring = [tc 2 [0, 5], tc 2 [0, 5], tc 1 [1, 1]]"

definition example_final_run :: "(test_case, nat) run" where
  "example_final_run = \<lparr>world = 8, calls =
     [Select, Select, NextFloat,
      Mutate (tc 1 [0, 5]\<lparr>changed := False\<rparr>), Mutate (tc 1 [0, 5]\<lparr>changed := False\<rparr>),
      Mutate (tc 1 [0, 5]\<lparr>changed := False\<rparr>),
      NextBool, GetChromosome]\<rparr>"

section \<open>Properties\<close>

subsection \<open>What the loops compute\<close>

lemma scan_front_eq:
  "scan_front cmp s front (ds, d) =
     (ds @ filter (\<lambda>b. cmp s b < 0) front, d \<or> (\<exists>b \<in> set front. 0 < cmp s b))"
  by (induction front arbitrary: ds d) (auto simp: Let_def)

lemma remove_dominated_filter:
  assumes "\<forall>z \<in> set zs. \<not> P z" and "\<forall>y \<in> set ys. \<not> P y"
  shows "remove_dominated (filter P xs) (zs @ xs @ ys) = zs @ filter (\<lambda>x. \<not> P x) xs @ ys"
  using assms(1)
proof (induction xs arbitrary: zs)
  case Nil
  then show ?case by simp
next
  case (Cons x xs)
  show ?case
  proof (cases "P x")
    case True
    with Cons.prems have "x \<notin> set zs" by blast
    then have "remove1 x (zs @ x # xs @ ys) = zs @ xs @ ys"
      by (simp add: remove1_append)
    with True Cons.IH [OF Cons.prems] show ?thesis by simp
  next
    case False
    with Cons.prems have "\<forall>z \<in> set (zs @ [x]). \<not> P z" by simp
    from Cons.IH [OF this] False show ?thesis by simp
  qed
qed

lemma subseq_set_subset: "subseq xs ys \<Longrightarrow> set xs \<subseteq> set ys"
  by (induction rule: list_emb.induct) auto

lemma front_loop_step:
  assumes "\<not> cmp s s < 0"
  shows "front_loop cmp (s # rest) front =
     (if \<exists>b \<in> set front. 0 < cmp s b then front_loop cmp rest front
      else front_loop cmp rest (filter (\<lambda>b. \<not> cmp s b < 0) front @ [s]))"
proof -
  have "remove_dominated (filter (\<lambda>b. cmp s b < 0) front) ([] @ front @ [s]) =
        [] @ filter (\<lambda>b. \<not> cmp s b < 0) front @ [s]"
    by (rule remove_dominated_filter) (use assms in auto)
  then show ?thesis by (simp add: scan_front_eq)
qed

lemma front_loop_subseq:
  assumes "\<forall>a. \<not> cmp a a < 0" and "subseq front pre"
  shows "subseq (front_loop cmp sols front) (pre @ sols)"
  using assms(2)
proof (induction sols arbitrary: front pre)
  case Nil
  then show ?case by simp
next
  case (Cons s rest)
  have irr: "\<not> cmp s s < 0" using assms(1) by blast
  have a: "subseq front (pre @ [s])"
    using Cons.prems by (rule subseq_rev_drop_many)
  have "subseq (filter (\<lambda>b. \<not> cmp s b < 0) front) pre"
    using subseq_filter_left Cons.prems by (rule subseq_order.trans)
  then have b: "subseq (filter (\<lambda>b. \<not> cmp s b < 0) front @ [s]) (pre @ [s])"
    by (simp add: list_emb_append_mono)
  from Cons.IH [OF a] Cons.IH [OF b] show ?case
    by (simp add: front_loop_step [where cmp = cmp and s = s, OF irr] del: front_loop.simps)
qed

lemma front_loop_nonempty:
  assumes "\<forall>a. \<not> cmp a a < 0" and "front \<noteq> [] \<or> sols \<noteq> []"
  shows "front_loop cmp sols front \<noteq> []"
  using assms(2)
proof (induction sols arbitrary: front)
  case Nil
  then show ?case by simp
next
  case (Cons s rest)
  have irr: "\<not> cmp s s < 0" using assms(1) by blast
  show ?case
  proof (cases "\<exists>b \<in> set front. 0 < cmp s b")
    case True
    then have "front \<noteq> []" by auto
    with True Cons.IH [of front] show ?thesis
      by (simp add: front_loop_step [where cmp = cmp and s = s, OF irr] del: front_loop.simps)
  next
    case False
    with Cons.IH [of "filter (\<lambda>b. \<not> cmp s b < 0) front @ [s]"] show ?thesis
      by (simp add: front_loop_step [where cmp = cmp and s = s, OF irr] del: front_loop.simps)
  qed
qed

lemma front_loop_non_dominated:
  assumes "\<forall>a. \<not> cmp a a < 0" and "\<forall>a b. 0 < cmp a b \<longleftrightarrow> cmp b a < 0"
    and "\<forall>a \<in> set front. \<forall>b \<in> set front. \<not> cmp a b < 0"
  shows "\<forall>a \<in> set (front_loop cmp sols front).
           \<forall>b \<in> set (front_loop cmp sols front). \<not> cmp a b < 0"
  using assms(3)
proof (induction sols arbitrary: front)
  case Nil
  then show ?case by simp
next
  case (Cons s rest)
  have irr: "\<not> cmp s s < 0" using assms(1) by blast
  note step = front_loop_step [where cmp = cmp and s = s and rest = rest and front = front, OF irr]
  show ?case
  proof (cases "\<exists>b \<in> set front. 0 < cmp s b")
    case True
    have eq: "front_loop cmp (s # rest) front = front_loop cmp rest front"
      using True step by (simp only: if_True)
    show ?thesis unfolding eq by (rule Cons.IH [OF Cons.prems])
  next
    case False
    let ?f = "filter (\<lambda>b. \<not> cmp s b < 0) front @ [s]"
    have eq: "front_loop cmp (s # rest) front = front_loop cmp rest ?f"
      using False step by (simp only: if_False)
    have "\<forall>b \<in> set front. \<not> 0 < cmp s b"
      using False by blast
    then have "\<forall>b \<in> set front. \<not> cmp b s < 0"
      using assms(2) by blast
    then have "\<forall>a \<in> set ?f. \<forall>b \<in> set ?f. \<not> cmp a b < 0"
      using Cons.prems irr by auto
    then show ?thesis unfolding eq by (rule Cons.IH)
  qed
qed

text \<open>
  C8: for a non-empty input and a comparator that is a strict partial order,
  \<open>_get_non_dominated_solutions\<close> returns a non-empty list that is a subsequence of
  the input (a subset of it, in the input's order) and in which no element dominates
  another.
\<close>

theorem non_dominated_solutions_front:
  assumes "strict_partial_order_cmp cmp" and "sols \<noteq> []"
  shows "non_dominated_solutions cmp sols \<noteq> [] \<and>
         subseq (non_dominated_solutions cmp sols) sols \<and>
         set (non_dominated_solutions cmp sols) \<subseteq> set sols \<and>
         (\<forall>a \<in> set (non_dominated_solutions cmp sols).
            \<forall>b \<in> set (non_dominated_solutions cmp sols). \<not> cmp a b < 0)"
proof -
  have irr: "\<forall>a. \<not> cmp a a < 0" and conv: "\<forall>a b. 0 < cmp a b \<longleftrightarrow> cmp b a < 0"
    using assms(1) by (simp_all add: strict_partial_order_cmp_def)
  have ne: "front_loop cmp sols [] \<noteq> []"
    using irr assms(2) by (simp add: front_loop_nonempty)
  have sub: "subseq (front_loop cmp sols []) ([] @ sols)"
    using irr by (rule front_loop_subseq) simp
  then have "set (front_loop cmp sols []) \<subseteq> set sols"
    by (simp add: subseq_set_subset)
  moreover have "\<forall>a \<in> set (front_loop cmp sols []).
                   \<forall>b \<in> set (front_loop cmp sols []). \<not> cmp a b < 0"
    using irr conv by (rule front_loop_non_dominated) simp
  ultimately show ?thesis
    using ne sub by (simp add: non_dominated_solutions_def)
qed

subsection \<open>Loops and recorded calls\<close>

lemma for_range_invariant:
  assumes step: "\<And>s s'. P s \<Longrightarrow> body s = Inr s' \<Longrightarrow> P s'"
  shows "P s \<Longrightarrow> for_range n body s = Inr s' \<Longrightarrow> P s'"
proof (induction n arbitrary: s)
  case 0
  then show ?case by simp
next
  case (Suc n)
  from Suc.prems(2) obtain s1 where s1: "body s = Inr s1" and rest: "for_range n body s1 = Inr s'"
    by (auto split: sum.splits)
  from step [OF Suc.prems(1) s1] rest show ?case by (rule Suc.IH)
qed



lemma call_select_calls:
  "call_select env pop r = (xs, r') \<Longrightarrow> calls r' = calls r @ [Select]"
  by (auto simp: call_select_def split: prod.splits)

lemma call_next_float_calls:
  "call_next_float env r = (x, r') \<Longrightarrow> calls r' = calls r @ [NextFloat]"
  by (auto simp: call_next_float_def split: prod.splits)

lemma call_next_bool_calls:
  "call_next_bool env r = (b, r') \<Longrightarrow> calls r' = calls r @ [NextBool]"
  by (auto simp: call_next_bool_def split: prod.splits)

lemma call_cross_over_calls:
  "call_cross_over env a b r = (res, r') \<Longrightarrow> calls r' = calls r @ [CrossOver a b]"
  by (auto simp: call_cross_over_def split: prod.splits)

lemma call_mutate_calls:
  "call_mutate env c r = (c', r') \<Longrightarrow> calls r' = calls r @ [Mutate c]"
  by (auto simp: call_mutate_def split: prod.splits)

lemma call_get_chromosome_calls:
  "call_get_chromosome env r = (c, r') \<Longrightarrow> calls r' = calls r @ [GetChromosome]"
  by (auto simp: call_get_chromosome_def split: prod.splits)

lemma call_choice_calls:
  "call_choice env xs r = Inr (c, r') \<Longrightarrow> calls r' = calls r @ [Choice]"
  by (auto simp: call_choice_def split: prod.splits if_splits)

lemma mosa_mutate_calls:
  assumes "mosa_mutate env c r = (c', r')"
  shows "\<exists>ms. calls r' = calls r @ ms \<and> length ms \<le> 2 \<and> (\<forall>m \<in> set ms. is_mutate m)"
proof -
  obtain c1 r1 where m1: "call_mutate env c r = (c1, r1)"
    by (cases "call_mutate env c r")
  show ?thesis
  proof (cases "has_changed env c1")
    case True
    with assms m1 have "r' = r1" by (simp add: mosa_mutate_def)
    with call_mutate_calls [OF m1] have "calls r' = calls r @ [Mutate c]" by simp
    then show ?thesis by (intro exI [of _ "[Mutate c]"]) simp
  next
    case False
    with assms m1 have "call_mutate env c1 r1 = (c', r')" by (simp add: mosa_mutate_def)
    from call_mutate_calls [OF this] call_mutate_calls [OF m1]
    have "calls r' = calls r @ [Mutate c, Mutate c1]" by simp
    then show ?thesis by (intro exI [of _ "[Mutate c, Mutate c1]"]) simp
  qed
qed

lemma mutate_pair_calls:
  assumes "mutate_pair env o1 o2 off r = (off', r')"
  shows "\<exists>ms. calls r' = calls r @ ms \<and> length ms \<le> 4 \<and> (\<forall>m \<in> set ms. is_mutate m)"
proof -
  obtain a r1 where m1: "mosa_mutate env o1 r = (a, r1)"
    by (cases "mosa_mutate env o1 r")
  obtain b r2 where m2: "mosa_mutate env o2 r1 = (b, r2)"
    by (cases "mosa_mutate env o2 r1")
  from assms m1 m2 have r': "r' = r2" by (simp add: mutate_pair_def)
  from mosa_mutate_calls [OF m1] obtain ms1
    where ms1: "calls r1 = calls r @ ms1" "length ms1 \<le> 2" "\<forall>m \<in> set ms1. is_mutate m"
    by blast
  from mosa_mutate_calls [OF m2] obtain ms2
    where ms2: "calls r2 = calls r1 @ ms2" "length ms2 \<le> 2" "\<forall>m \<in> set ms2. is_mutate m"
    by blast
  from ms1 ms2 r' show ?thesis
    by (intro exI [of _ "ms1 @ ms2"]) auto
qed

lemma mutate_pair_offspring:
  assumes "mutate_pair env o1 o2 off r = (off', r')"
  shows "\<exists>a b. off' = keep_offspring env b (keep_offspring env a off)"
  using assms by (auto simp: mutate_pair_def split: prod.splits)


lemma keep_offspring_valid:
  assumes "\<forall>x \<in> set off. has_changed env x \<and> 0 < size_c env x"
  shows "\<forall>x \<in> set (keep_offspring env c off). has_changed env x \<and> 0 < size_c env x"
  using assms by (simp add: keep_offspring_def)

text \<open>What a breeding iteration that returns has done.\<close>

lemma breed_pair_Inr:
  assumes "breed_pair env cfg self (off, r) = Inr (off', r')"
  shows "\<exists>r3 cs. calls r3 = calls r @ [Select, Select, NextFloat] @ cs \<and>
           (cs = [] \<or> (\<exists>a b. cs = [CrossOver a b])) \<and>
           ((off' = off \<and> r' = r3 \<and> cs \<noteq> []) \<or>
            (\<exists>o1 o2. mutate_pair env o1 o2 off r3 = (off', r')))"
proof -
  obtain sel1 r1 where s1: "call_select env (s_population self) r = (sel1, r1)"
    by (cases "call_select env (s_population self) r")
  obtain sel2 r2 where s2: "call_select env (s_population self) r1 = (sel2, r2)"
    by (cases "call_select env (s_population self) r1")
  obtain x r3 where nf: "call_next_float env r2 = (x, r3)"
    by (cases "call_next_float env r2")
  have c3: "calls r3 = calls r @ [Select, Select, NextFloat]"
    using call_select_calls [OF s1] call_select_calls [OF s2] call_next_float_calls [OF nf]
    by simp
  from assms s1 have i1: "item_0 sel1 = Inr (hd sel1)"
    by (auto simp: breed_pair_def item_0_def split: if_splits)
  from assms s1 s2 i1 have i2: "item_0 sel2 = Inr (hd sel2)"
    by (auto simp: breed_pair_def item_0_def split: if_splits)
  let ?a = "clone env (hd sel1)" and ?b = "clone env (hd sel2)"
  show ?thesis
  proof (cases "x \<le> crossover_rate cfg")
    case False
    with assms s1 s2 nf i1 i2 have "mutate_pair env ?a ?b off r3 = (off', r')"
      by (simp add: breed_pair_def)
    with c3 show ?thesis by (intro exI [of _ r3] exI [of _ "[]"]) auto
  next
    case True
    obtain res r4 where co: "call_cross_over env ?a ?b r3 = (res, r4)"
      by (cases "call_cross_over env ?a ?b r3")
    have c4: "calls r4 = calls r @ [Select, Select, NextFloat] @ [CrossOver ?a ?b]"
      using call_cross_over_calls [OF co] c3 by simp
    show ?thesis
    proof (cases res)
      case None
      with assms s1 s2 nf i1 i2 True co have "off' = off \<and> r' = r4"
        by (simp add: breed_pair_def)
      with c4 show ?thesis
        by (intro exI [of _ r4] exI [of _ "[CrossOver ?a ?b]"]) auto
    next
      case (Some p)
      obtain o1 o2 where p: "p = (o1, o2)" by (cases p)
      with assms s1 s2 nf i1 i2 True co Some have "mutate_pair env o1 o2 off r4 = (off', r')"
        by (simp add: breed_pair_def)
      with c4 show ?thesis
        by (intro exI [of _ r4] exI [of _ "[CrossOver ?a ?b]"]) auto
    qed
  qed
qed

text \<open>What an injection iteration that returns has done.\<close>

lemma inject_candidate_Inr:
  assumes "inject_candidate env self (off, r) = Inr (off', r')"
  shows "\<exists>c cs. off' = keep_offspring env c off \<and> calls r' = calls r @ cs \<and>
           (cs = [GetChromosome] \<or> cs = [NextBool, GetChromosome] \<or>
            (\<exists>m. cs = [NextBool, Choice, Mutate m]))"
proof -
  let ?first = "if covered_goals (s_archive self) = {} then (True, r) else call_next_bool env r"
  obtain fresh r1 where f: "?first = (fresh, r1)"
    by (cases ?first)
  have c1: "calls r1 = calls r \<or> calls r1 = calls r @ [NextBool]"
    using f call_next_bool_calls [of env r fresh r1] by (auto split: if_splits)
  show ?thesis
  proof (cases fresh)
    case True
    obtain tch r2 where g: "call_get_chromosome env r1 = (tch, r2)"
      by (cases "call_get_chromosome env r1")
    let ?c = "foldl (add_fitness_function env) tch (s_fitness_functions self)"
    from assms f True g have "off' = keep_offspring env ?c off \<and> r' = r2"
      by (simp add: inject_candidate_def)
    moreover have "calls r2 = calls r1 @ [GetChromosome]"
      using g by (rule call_get_chromosome_calls)
    ultimately show ?thesis
      using c1 by (intro exI [of _ ?c]) auto
  next
    case False
    from assms f False obtain chosen r2
      where ch: "call_choice env (solutions (s_archive self)) r1 = Inr (chosen, r2)"
      by (auto simp: inject_candidate_def split: sum.splits)
    obtain tch r3 where m: "call_mutate env (clone env chosen) r2 = (tch, r3)"
      by (cases "call_mutate env (clone env chosen) r2")
    from assms f False ch m have res: "off' = keep_offspring env tch off \<and> r' = r3"
      by (simp add: inject_candidate_def)
    from f False have "calls r1 = calls r @ [NextBool]"
      using call_next_bool_calls [of env r fresh r1] by (auto split: if_splits)
    with call_choice_calls [OF ch] call_mutate_calls [OF m] res
    have "calls r' = calls r @ [NextBool, Choice, Mutate (clone env chosen)]" by simp
    with res show ?thesis by (intro exI [of _ tch]) auto
  qed
qed


lemma breed_pair_valid:
  assumes "\<forall>x \<in> set (fst s). has_changed env x \<and> 0 < size_c env x"
    and "breed_pair env cfg self s = Inr s'"
  shows "\<forall>x \<in> set (fst s'). has_changed env x \<and> 0 < size_c env x"
proof -
  obtain off r off' r' where s: "s = (off, r)" and s': "s' = (off', r')"
    by (cases s, cases s')
  from assms(2) [unfolded s s'] breed_pair_Inr [of env cfg self off r off' r']
  consider "off' = off" | o1 o2 r3 where "mutate_pair env o1 o2 off r3 = (off', r')"
    by blast
  then show ?thesis
  proof cases
    case 1
    with assms(1) s s' show ?thesis by simp
  next
    case 2
    from mutate_pair_offspring [OF 2] obtain a b
      where off': "off' = keep_offspring env b (keep_offspring env a off)" by blast
    have "\<forall>x \<in> set off. has_changed env x \<and> 0 < size_c env x"
      using assms(1) s by simp
    then have "\<forall>x \<in> set (keep_offspring env a off). has_changed env x \<and> 0 < size_c env x"
      by (rule keep_offspring_valid)
    then have "\<forall>x \<in> set off'. has_changed env x \<and> 0 < size_c env x"
      unfolding off' by (rule keep_offspring_valid)
    then show ?thesis
      using s' by simp
  qed
qed

lemma inject_candidate_valid:
  assumes "\<forall>x \<in> set (fst s). has_changed env x \<and> 0 < size_c env x"
    and "inject_candidate env self s = Inr s'"
  shows "\<forall>x \<in> set (fst s'). has_changed env x \<and> 0 < size_c env x"
proof -
  obtain off r off' r' where s: "s = (off, r)" and s': "s' = (off', r')"
    by (cases s, cases s')
  from assms(2) [unfolded s s'] inject_candidate_Inr [of env self off r off' r']
  obtain c where off': "off' = keep_offspring env c off" by blast
  have "\<forall>x \<in> set off. has_changed env x \<and> 0 < size_c env x"
    using assms(1) s by simp
  then have "\<forall>x \<in> set off'. has_changed env x \<and> 0 < size_c env x"
    unfolding off' by (rule keep_offspring_valid)
  then show ?thesis
    using s' by simp
qed





subsection \<open>The concrete instance, evaluated\<close>


lemma example_breed:
  "breed_next_generation example_env example_config example_strategy example_run =
     Inr (example_offspring, example_final_run)"
  by code_simp

subsection \<open>The two loops of \<open>_breed_next_generation\<close>\<close>

lemma breed_next_generation_Inr:
  assumes "breed_next_generation env cfg self r = Inr s'"
  shows "\<exists>st. for_range (breeding_iterations cfg) (breed_pair env cfg self) ([], r) = Inr st \<and>
              for_range (injection_iterations cfg) (inject_candidate env self) st = Inr s'"
  using assms by (auto simp: breed_next_generation_def split: sum.splits)


text \<open>
  C3: every chromosome in the list that \<open>_breed_next_generation\<close> returns, bred or
  injected, has \<open>has_changed()\<close> true and \<open>size() > 0\<close>.
\<close>

theorem breed_next_generation_offspring_valid:
  fixes env :: "('g, 'c, 'w) collaborators"
  assumes "breed_next_generation env cfg self r = Inr (offspring, r')"
  shows "\<forall>c \<in> set offspring. has_changed env c \<and> 0 < size_c env c"
proof -
  let ?P = "\<lambda>s :: 'c list \<times> ('c, 'w) run. \<forall>x \<in> set (fst s). has_changed env x \<and> 0 < size_c env x"
  from breed_next_generation_Inr [OF assms] obtain st
    where first: "for_range (breeding_iterations cfg) (breed_pair env cfg self) ([], r) = Inr st"
      and second: "for_range (injection_iterations cfg) (inject_candidate env self) st =
                     Inr (offspring, r')"
    by blast
  have "?P st"
  proof (rule for_range_invariant [where P = ?P, OF _ _ first])
    show "?P ([], r)" by simp
  next
    fix s s' :: "'c list \<times> ('c, 'w) run"
    assume "?P s" and "breed_pair env cfg self s = Inr s'"
    then show "?P s'" by (rule breed_pair_valid)
  qed
  have "?P (offspring, r')"
  proof (rule for_range_invariant [where P = ?P, OF _ _ second])
    show "?P st" by fact
  next
    fix s s' :: "'c list \<times> ('c, 'w) run"
    assume "?P s" and "inject_candidate env self s = Inr s'"
    then show "?P s'" by (rule inject_candidate_valid)
  qed
  then show ?thesis by simp
qed

theorem breed_next_generation_offspring_valid_witness:
  "breed_next_generation example_env example_config example_strategy example_run =
     Inr (example_offspring, example_final_run) \<and>
   list_all (\<lambda>c. has_changed example_env c \<and> 0 < size_c example_env c) example_offspring"
  using breed_next_generation_offspring_valid [OF example_breed] example_breed
  by (simp add: list_all_iff)






subsection \<open>Dominance\<close>

lemma dominates_irrefl: "\<not> dominates fit goals a a"
  by (simp add: dominates_def)

lemma dominates_trans:
  assumes "dominates fit goals a b" and "dominates fit goals b c"
  shows "dominates fit goals a c"
proof -
  from assms have le: "\<forall>g \<in> goals. fit a g \<le> fit c g"
    unfolding dominates_def by (meson order_trans)
  from assms(1) obtain g where g: "g \<in> goals" "fit a g < fit b g"
    unfolding dominates_def by blast
  from assms(2) g(1) have "fit b g \<le> fit c g"
    unfolding dominates_def by blast
  with g have "\<exists>g \<in> goals. fit a g < fit c g"
    by (meson less_le_trans)
  with le show ?thesis by (simp add: dominates_def)
qed

lemma dominates_asym:
  assumes "dominates fit goals a b"
  shows "\<not> dominates fit goals b a"
proof
  assume "dominates fit goals b a"
  with assms have "dominates fit goals a a" by (rule dominates_trans)
  then show False by (simp add: dominates_irrefl)
qed

lemma compare_neg_iff:
  "compare fit comparator a b < 0 \<longleftrightarrow> dominates fit (objectives comparator) a b"
  by (simp add: compare_def)

lemma compare_pos_iff:
  "0 < compare fit comparator a b \<longleftrightarrow> dominates fit (objectives comparator) b a"
  using dominates_asym [of fit "objectives comparator" a b] by (auto simp: compare_def)

lemma compare_strict_partial_order: "strict_partial_order_cmp (compare fit comparator)"
  unfolding strict_partial_order_cmp_def compare_neg_iff compare_pos_iff
  using dominates_irrefl [of fit "objectives comparator"]
    dominates_trans [of fit "objectives comparator"]
  by blast

lemma compare_cong:
  assumes "\<forall>c. \<forall>g \<in> objectives comparator. fit c g = fit' c g"
  shows "compare fit comparator = compare fit' comparator"
proof -
  have "dominates fit (objectives comparator) a b = dominates fit' (objectives comparator) a b"
    for a b using assms by (simp add: dominates_def)
  then show ?thesis by (intro ext) (simp add: compare_def)
qed

lemma example_front_uncovered:
  "non_dominated_solutions (compare (get_fitness_for example_env) (DominanceComparator {1}))
     (s_population example_strategy) = [tc 2 [0, 1]]"
  by code_simp

lemma example_front_covered:
  "get_non_dominated_solutions example_env example_strategy (s_population example_strategy) =
     [tc 1 [0, 5], tc 2 [0, 1]]"
  by code_simp

lemma example_uncovered_goals: "uncovered_goals example_strategy = {1}"
  by (auto simp: uncovered_goals_def example_strategy_def)

theorem non_dominated_solutions_front_witness:
  "strict_partial_order_cmp (compare (get_fitness_for example_env) (DominanceComparator {1})) \<and>
   s_population example_strategy \<noteq> [] \<and>
   non_dominated_solutions (compare (get_fitness_for example_env) (DominanceComparator {1}))
     (s_population example_strategy) = [tc 2 [0, 1]] \<and>
   subseq [tc 2 [0, 1]] (s_population example_strategy) \<and>
   \<not> compare (get_fitness_for example_env) (DominanceComparator {1}) (tc 2 [0, 1]) (tc 2 [0, 1]) < 0"
proof -
  let ?cmp = "compare (get_fitness_for example_env) (DominanceComparator {1::nat})"
  have spo: "strict_partial_order_cmp ?cmp" by (rule compare_strict_partial_order)
  have ne: "s_population example_strategy \<noteq> []" by (simp add: example_strategy_def)
  have front: "non_dominated_solutions ?cmp (s_population example_strategy) = [tc 2 [0, 1]]"
    by (rule example_front_uncovered)
  from non_dominated_solutions_front [OF spo ne]
  have "subseq [tc 2 [0, 1]] (s_population example_strategy)"
    and "\<forall>a \<in> set [tc 2 [0, 1]]. \<forall>b \<in> set [tc 2 [0, 1]]. \<not> ?cmp a b < 0"
    unfolding front by blast+
  then have "subseq [tc 2 [0, 1]] (s_population example_strategy) \<and>
             \<not> ?cmp (tc 2 [0, 1]) (tc 2 [0, 1]) < 0"
    by simp
  with spo ne front show ?thesis by blast
qed

text \<open>
  C1 as stated fails: with goals 0 and 1 of which goal 0 is covered, the comparator of
  \<open>_get_non_dominated_solutions\<close> has the objectives \<open>{0}\<close>, while the goals not yet
  covered are \<open>{1}\<close>. The two chromosomes of the population are equal on goal 0, so
  both are returned; on the uncovered goal the second dominates the first.
\<close>

theorem comparator_goals_not_uncovered:
  "objectives (comparator_of example_strategy) = {0} \<and>
   uncovered_goals example_strategy = {1} \<and>
   objectives (comparator_of example_strategy) \<noteq> uncovered_goals example_strategy \<and>
   get_non_dominated_solutions example_env example_strategy (s_population example_strategy) =
     [tc 1 [0, 5], tc 2 [0, 1]] \<and>
   non_dominated_solutions
     (compare (get_fitness_for example_env) (DominanceComparator (uncovered_goals example_strategy)))
     (s_population example_strategy) = [tc 2 [0, 1]]"
proof -
  have a: "objectives (comparator_of example_strategy) = {0}"
    by (simp add: comparator_of_def DominanceComparator_def example_strategy_def)
  have b: "uncovered_goals example_strategy = {1}"
    by (rule example_uncovered_goals)
  have c: "objectives (comparator_of example_strategy) \<noteq> uncovered_goals example_strategy"
    unfolding a b by simp
  have d: "non_dominated_solutions
     (compare (get_fitness_for example_env) (DominanceComparator (uncovered_goals example_strategy)))
     (s_population example_strategy) = [tc 2 [0, 1]]"
    unfolding b by (rule example_front_uncovered)
  from a b c example_front_covered d show ?thesis by blast
qed

text \<open>
  C1, as the code has it: the comparator that \<open>_get_non_dominated_solutions\<close> builds
  takes as its goal set exactly the covered goals of the archive; the fitness on any other
  goal has no part in the result.
\<close>

theorem comparator_goals_covered:
  "objectives (comparator_of self) = covered_goals (s_archive self) \<and>
   ((\<forall>c. \<forall>g \<in> covered_goals (s_archive self). get_fitness_for env c g = get_fitness_for env' c g)
      \<longrightarrow> get_non_dominated_solutions env self sols = get_non_dominated_solutions env' self sols)"
proof -
  have obj: "objectives (comparator_of self) = covered_goals (s_archive self)"
    by (simp add: comparator_of_def DominanceComparator_def)
  have "get_non_dominated_solutions env self sols = get_non_dominated_solutions env' self sols"
    if "\<forall>c. \<forall>g \<in> covered_goals (s_archive self). get_fitness_for env c g = get_fitness_for env' c g"
  proof -
    from that obj
    have "\<forall>c. \<forall>g \<in> objectives (comparator_of self).
            get_fitness_for env c g = get_fitness_for env' c g"
      by simp
    then have "compare (get_fitness_for env) (comparator_of self) =
               compare (get_fitness_for env') (comparator_of self)"
      by (rule compare_cong)
    then show ?thesis by (simp add: get_non_dominated_solutions_def)
  qed
  with obj show ?thesis by blast
qed

theorem comparator_goals_covered_witness:
  "objectives (comparator_of example_strategy) = {0} \<and>
   (\<forall>c. get_fitness_for example_env c 0 =
         get_fitness_for (example_env\<lparr>get_fitness_for := \<lambda>c g. if g = 0 then get_fitness_for example_env c g else 7\<rparr>) c 0) \<and>
   get_non_dominated_solutions example_env example_strategy (s_population example_strategy) =
   get_non_dominated_solutions
     (example_env\<lparr>get_fitness_for := \<lambda>c g. if g = 0 then get_fitness_for example_env c g else 7\<rparr>)
     example_strategy (s_population example_strategy)"
  using comparator_goals_covered [of example_strategy example_env
      "example_env\<lparr>get_fitness_for := \<lambda>c g. if g = 0 then get_fitness_for example_env c g else 7\<rparr>"
      "s_population example_strategy"]
  by (simp add: example_strategy_def)

subsection \<open>Sorting the population\<close>

text \<open>
  C9: after \<open>_sort_population\<close> the population is a permutation of the population
  before, in non-decreasing order of \<open>get_fitness()\<close>, the one scalar fitness of each
  chromosome; chromosomes of equal fitness keep their order, and nothing else of the
  strategy changes.
\<close>

theorem sort_population_sorted_permutation:
  "mset (s_population (sort_population env self)) = mset (s_population self) \<and>
   sorted (map (get_fitness env) (s_population (sort_population env self))) \<and>
   (\<forall>k. filter (\<lambda>c. get_fitness env c = k) (s_population (sort_population env self)) =
        filter (\<lambda>c. get_fitness env c = k) (s_population self)) \<and>
   s_archive (sort_population env self) = s_archive self \<and>
   s_fitness_functions (sort_population env self) = s_fitness_functions self"
  by (simp add: sort_population_def sort_key_stable)

lemma example_sort_population:
  "s_population (sort_population example_env example_strategy) = [tc 2 [0, 1], tc 1 [0, 5]]"
  by code_simp

theorem sort_population_sorted_permutation_witness:
  "s_population (sort_population example_env example_strategy) = [tc 2 [0, 1], tc 1 [0, 5]] \<and>
   mset (s_population (sort_population example_env example_strategy)) =
     mset (s_population example_strategy) \<and>
   sorted (map (get_fitness example_env) (s_population (sort_population example_env example_strategy)))"
  using sort_population_sorted_permutation [of example_env example_strategy]
    example_sort_population
  by simp

subsection \<open>Crossover failure, mutation retry and random injection\<close>

text \<open>
  C4: when the crossover of a pair raises \<open>ConstructionFailedException\<close>, the
  iteration ends normally with the offspring list as it was (both offspring are
  discarded): after the two selections, the random number and the one crossover call
  nothing more is called (no retry, no further selection, no mutation), and the loop goes
  on with its remaining iterations.
\<close>

theorem crossover_failure_discards_pair:
  fixes env :: "('g, 'c, 'w) collaborators"
  assumes "select env (s_population self) (world r) = (parent_1 # ps_1, w1)"
    and "select env (s_population self) w1 = (parent_2 # ps_2, w2)"
    and "next_float env w2 = (x, w3)"
    and "x \<le> crossover_rate cfg"
    and "cross_over env (clone env parent_1) (clone env parent_2) w3 = (None, w4)"
  shows "breed_pair env cfg self (off, r) =
           Inr (off, \<lparr>world = w4, calls = calls r @
             [Select, Select, NextFloat, CrossOver (clone env parent_1) (clone env parent_2)]\<rparr>) \<and>
         for_range (Suc n) (breed_pair env cfg self) (off, r) =
           for_range n (breed_pair env cfg self)
             (off, \<lparr>world = w4, calls = calls r @
               [Select, Select, NextFloat, CrossOver (clone env parent_1) (clone env parent_2)]\<rparr>)"
proof -
  have "breed_pair env cfg self (off, r) =
           Inr (off, \<lparr>world = w4, calls = calls r @
             [Select, Select, NextFloat, CrossOver (clone env parent_1) (clone env parent_2)]\<rparr>)"
    using assms
    by (simp add: breed_pair_def call_select_def call_next_float_def call_cross_over_def
          item_0_def)
  then show ?thesis by simp
qed

theorem crossover_failure_discards_pair_witness:
  "select example_env [tc 2 [0, 1]] 0 = ([tc 2 [0, 1]], 1) \<and>
   select example_env [tc 2 [0, 1]] 1 = ([tc 2 [0, 1]], 2) \<and>
   next_float example_env 2 = (1 / 2, 3) \<and>
   1 / 2 \<le> crossover_rate crossover_config \<and>
   cross_over example_env (clone example_env (tc 2 [0, 1])) (clone example_env (tc 2 [0, 1])) 3 =
     (None, 4) \<and>
   breed_pair example_env crossover_config (example_strategy\<lparr>s_population := [tc 2 [0, 1]]\<rparr>)
       ([], example_run) =
     Inr ([], \<lparr>world = 4, calls =
       [Select, Select, NextFloat,
        CrossOver (clone example_env (tc 2 [0, 1])) (clone example_env (tc 2 [0, 1]))]\<rparr>) \<and>
   for_range (Suc 0) (breed_pair example_env crossover_config
       (example_strategy\<lparr>s_population := [tc 2 [0, 1]]\<rparr>)) ([], example_run) =
     Inr ([], \<lparr>world = 4, calls =
       [Select, Select, NextFloat,
        CrossOver (clone example_env (tc 2 [0, 1])) (clone example_env (tc 2 [0, 1]))]\<rparr>)"
proof -
  let ?self = "example_strategy\<lparr>s_population := [tc 2 [0, 1]]\<rparr>"
  have h1: "select example_env (s_population ?self) (world example_run) = (tc 2 [0, 1] # [], 1)"
    by (simp add: example_env_def example_run_def)
  have h2: "select example_env (s_population ?self) 1 = (tc 2 [0, 1] # [], 2)"
    by (simp add: example_env_def)
  have h3: "next_float example_env 2 = (1 / 2, 3)"
    by (simp add: example_env_def)
  have h4: "(1 / 2 :: real) \<le> crossover_rate crossover_config"
    by (simp add: crossover_config_def)
  have h5: "cross_over example_env (clone example_env (tc 2 [0, 1]))
              (clone example_env (tc 2 [0, 1])) 3 = (None, 4)"
    by (simp add: example_env_def tc_def)
  from crossover_failure_discards_pair [OF h1 h2 h3 h4 h5, of "[]" 0] h1 h2 h3 h4 h5
  show ?thesis by (simp add: example_run_def)
qed

text \<open>
  C5: \<open>_mutate\<close> calls \<open>mutate\<close> on the offspring once, and once more exactly when the
  first call left \<open>has_changed()\<close> false: one or two calls, never more. A breeding
  iteration passes each of its two offspring to \<open>_mutate\<close> once, so it makes at most
  four calls of \<open>mutate\<close>.
\<close>

theorem mosa_mutate_once_or_twice:
  fixes env :: "('g, 'c, 'w) collaborators"
  shows "calls (snd (mosa_mutate env c r)) =
           calls r @ (if has_changed env (fst (mutate env c (world r))) then [Mutate c]
                      else [Mutate c, Mutate (fst (mutate env c (world r)))]) \<and>
         count_calls is_mutate (snd (mosa_mutate env c r)) =
           count_calls is_mutate r +
             (if has_changed env (fst (mutate env c (world r))) then 1 else 2) \<and>
         count_calls is_mutate (snd (mosa_mutate env c r)) \<le> count_calls is_mutate r + 2 \<and>
         (breed_pair env cfg self (off, r) = Inr (off', r') \<longrightarrow>
            count_calls is_mutate r' \<le> count_calls is_mutate r + 4)"
proof -
  have a: "calls (snd (mosa_mutate env c r)) =
           calls r @ (if has_changed env (fst (mutate env c (world r))) then [Mutate c]
                      else [Mutate c, Mutate (fst (mutate env c (world r)))])"
    by (simp add: mosa_mutate_def call_mutate_def split_beta)
  have b: "count_calls is_mutate r' \<le> count_calls is_mutate r + 4"
    if "breed_pair env cfg self (off, r) = Inr (off', r')"
  proof -
    from breed_pair_Inr [OF that]
    obtain r3 cs where c3: "calls r3 = calls r @ [Select, Select, NextFloat] @ cs"
      and cs: "cs = [] \<or> (\<exists>a b. cs = [CrossOver a b])"
      and fin: "r' = r3 \<or> (\<exists>o1 o2. mutate_pair env o1 o2 off r3 = (off', r'))"
      by blast
    from fin obtain ms where ms: "calls r' = calls r3 @ ms" "length ms \<le> 4"
    proof
      assume "r' = r3"
      then have "calls r' = calls r3 @ []" by simp
      then show ?thesis by (rule that) simp
    next
      assume "\<exists>o1 o2. mutate_pair env o1 o2 off r3 = (off', r')"
      then obtain o1 o2 where "mutate_pair env o1 o2 off r3 = (off', r')" by blast
      from mutate_pair_calls [OF this] show ?thesis using that by blast
    qed
    have "filter is_mutate cs = []" using cs by auto
    moreover have "length (filter is_mutate ms) \<le> 4"
      using ms(2) length_filter_le [of is_mutate ms] by linarith
    ultimately show ?thesis
      using ms(1) c3 by (simp add: count_calls_def)
  qed
  from a b show ?thesis by (simp add: count_calls_def)
qed

theorem mosa_mutate_once_or_twice_witness:
  "has_changed example_env (fst (mutate example_env (clone example_env (tc 1 [])) 0)) = False \<and>
   calls (snd (mosa_mutate example_env (clone example_env (tc 1 [])) example_run)) =
     [Mutate (clone example_env (tc 1 [])), Mutate (clone example_env (tc 1 []))] \<and>
   has_changed example_env (fst (mutate example_env (clone example_env (tc 1 [])) 1)) = True \<and>
   calls (snd (mosa_mutate example_env (clone example_env (tc 1 [])) \<lparr>world = 1, calls = []\<rparr>)) =
     [Mutate (clone example_env (tc 1 []))] \<and>
   breed_pair example_env example_config example_strategy ([], example_run) =
     Inr ([tc 2 [0, 5], tc 2 [0, 5]], \<lparr>world = 6, calls =
       [Select, Select, NextFloat,
        Mutate (tc 1 [0, 5]\<lparr>changed := False\<rparr>), Mutate (tc 1 [0, 5]\<lparr>changed := False\<rparr>),
        Mutate (tc 1 [0, 5]\<lparr>changed := False\<rparr>)]\<rparr>) \<and>
   count_calls is_mutate \<lparr>world = 6 :: nat, calls =
       [Select, Select, NextFloat,
        Mutate (tc 1 [0, 5]\<lparr>changed := False\<rparr>), Mutate (tc 1 [0, 5]\<lparr>changed := False\<rparr>),
        Mutate (tc 1 [0, 5]\<lparr>changed := False\<rparr>)]\<rparr>
     \<le> count_calls is_mutate example_run + 4"
proof -
  let ?c = "clone example_env (tc 1 [])"
  have unchanged: "has_changed example_env (fst (mutate example_env ?c 0)) = False"
    and changed: "has_changed example_env (fst (mutate example_env ?c 1)) = True"
    by (simp_all add: example_env_def tc_def)
  have pair: "breed_pair example_env example_config example_strategy ([], example_run) =
     Inr ([tc 2 [0, 5], tc 2 [0, 5]], \<lparr>world = 6, calls =
       [Select, Select, NextFloat,
        Mutate (tc 1 [0, 5]\<lparr>changed := False\<rparr>), Mutate (tc 1 [0, 5]\<lparr>changed := False\<rparr>),
        Mutate (tc 1 [0, 5]\<lparr>changed := False\<rparr>)]\<rparr>)"
    by code_simp
  let ?r' = "\<lparr>world = 6 :: nat, calls =
       [Select, Select, NextFloat,
        Mutate (tc 1 [0, 5]\<lparr>changed := False\<rparr>), Mutate (tc 1 [0, 5]\<lparr>changed := False\<rparr>),
        Mutate (tc 1 [0, 5]\<lparr>changed := False\<rparr>)]\<rparr>"
  note first = mosa_mutate_once_or_twice [of example_env ?c example_run example_config
      example_strategy "[]" "[tc 2 [0, 5], tc 2 [0, 5]]" ?r']
  note second = mosa_mutate_once_or_twice [of example_env ?c "\<lparr>world = 1, calls = []\<rparr>"
      example_config example_strategy "[]" "[]" example_run]
  have m0: "mutate example_env ?c 0 = (?c, 1)"
    by (simp add: example_env_def tc_def)
  from first have "calls (snd (mosa_mutate example_env ?c example_run)) =
      calls example_run @
        (if has_changed example_env (fst (mutate example_env ?c (world example_run)))
         then [Mutate ?c] else [Mutate ?c, Mutate (fst (mutate example_env ?c (world example_run)))])"
    by (rule conjunct1)
  with unchanged m0
  have e1: "calls (snd (mosa_mutate example_env ?c example_run)) = [Mutate ?c, Mutate ?c]"
    by (simp add: example_run_def)
  from second have "calls (snd (mosa_mutate example_env ?c \<lparr>world = 1, calls = []\<rparr>)) =
      calls \<lparr>world = 1 :: nat, calls = [] :: test_case call list\<rparr> @
        (if has_changed example_env
              (fst (mutate example_env ?c (world \<lparr>world = 1 :: nat, calls = [] :: test_case call list\<rparr>)))
         then [Mutate ?c]
         else [Mutate ?c, Mutate (fst (mutate example_env ?c
                 (world \<lparr>world = 1 :: nat, calls = [] :: test_case call list\<rparr>)))])"
    by (rule conjunct1)
  with changed
  have e2: "calls (snd (mosa_mutate example_env ?c \<lparr>world = 1, calls = []\<rparr>)) = [Mutate ?c]"
    by simp
  from first pair have e3: "count_calls is_mutate ?r' \<le> count_calls is_mutate example_run + 4"
    by blast
  from unchanged changed e1 e2 pair e3 show ?thesis by blast
qed

text \<open>
  C6: an injection iteration takes a brand-new candidate from the factory whenever no goal
  is covered, without consulting the random source; otherwise it draws one boolean and
  takes a new candidate if the draw is true (one of the two outcomes of \<open>next_bool\<close>),
  and if it is false it draws a chromosome from the archive's solutions with
  \<open>randomness.choice\<close>, clones it and mutates the clone once. In every case the result
  is kept under the test \<open>has_changed()\<close> and \<open>size() > 0\<close>, the one that bred
  offspring pass.
\<close>

theorem inject_candidate_branches:
  fixes env :: "('g, 'c, 'w) collaborators"
  shows
    "(covered_goals (s_archive self) = {} \<longrightarrow> get_chromosome env (world r) = (tch, wc) \<longrightarrow>
        inject_candidate env self (off, r) =
          Inr (keep_offspring env
                 (foldl (add_fitness_function env) tch (s_fitness_functions self)) off,
               \<lparr>world = wc, calls = calls r @ [GetChromosome]\<rparr>)) \<and>
     (covered_goals (s_archive self) \<noteq> {} \<longrightarrow> next_bool env (world r) = (True, wb) \<longrightarrow>
        get_chromosome env wb = (tch, wc) \<longrightarrow>
        inject_candidate env self (off, r) =
          Inr (keep_offspring env
                 (foldl (add_fitness_function env) tch (s_fitness_functions self)) off,
               \<lparr>world = wc, calls = calls r @ [NextBool, GetChromosome]\<rparr>)) \<and>
     (covered_goals (s_archive self) \<noteq> {} \<longrightarrow> next_bool env (world r) = (False, wb) \<longrightarrow>
        solutions (s_archive self) \<noteq> [] \<longrightarrow>
        choice env (solutions (s_archive self)) wb = (chosen, wc) \<longrightarrow>
        mutate env (clone env chosen) wc = (mutated, wm) \<longrightarrow>
        inject_candidate env self (off, r) =
          Inr (keep_offspring env mutated off,
               \<lparr>world = wm, calls = calls r @ [NextBool, Choice, Mutate (clone env chosen)]\<rparr>)) \<and>
     keep_offspring env c off =
       (if has_changed env c \<and> 0 < size_c env c then off @ [c] else off) \<and>
     fst (mutate_pair env o1 o2 off r) =
       keep_offspring env (fst (mosa_mutate env o2 (snd (mosa_mutate env o1 r))))
         (keep_offspring env (fst (mosa_mutate env o1 r)) off)"
proof -
  have a: "inject_candidate env self (off, r) =
          Inr (keep_offspring env
                 (foldl (add_fitness_function env) tch (s_fitness_functions self)) off,
               \<lparr>world = wc, calls = calls r @ [GetChromosome]\<rparr>)"
    if "covered_goals (s_archive self) = {}" "get_chromosome env (world r) = (tch, wc)"
    using that by (simp add: inject_candidate_def call_get_chromosome_def)
  have b: "inject_candidate env self (off, r) =
          Inr (keep_offspring env
                 (foldl (add_fitness_function env) tch (s_fitness_functions self)) off,
               \<lparr>world = wc, calls = calls r @ [NextBool, GetChromosome]\<rparr>)"
    if "covered_goals (s_archive self) \<noteq> {}" "next_bool env (world r) = (True, wb)"
      "get_chromosome env wb = (tch, wc)"
    using that by (simp add: inject_candidate_def call_next_bool_def call_get_chromosome_def)
  have c: "inject_candidate env self (off, r) =
          Inr (keep_offspring env mutated off,
               \<lparr>world = wm, calls = calls r @ [NextBool, Choice, Mutate (clone env chosen)]\<rparr>)"
    if "covered_goals (s_archive self) \<noteq> {}" "next_bool env (world r) = (False, wb)"
      "solutions (s_archive self) \<noteq> []"
      "choice env (solutions (s_archive self)) wb = (chosen, wc)"
      "mutate env (clone env chosen) wc = (mutated, wm)"
    using that
    by (simp add: inject_candidate_def call_next_bool_def call_choice_def call_mutate_def)
  have d: "fst (mutate_pair env o1 o2 off r) =
       keep_offspring env (fst (mosa_mutate env o2 (snd (mosa_mutate env o1 r))))
         (keep_offspring env (fst (mosa_mutate env o1 r)) off)"
    by (simp add: mutate_pair_def split_beta)
  from a b c d show ?thesis by (simp add: keep_offspring_def)
qed

theorem inject_candidate_branches_witness:
  "covered_goals (s_archive example_strategy) \<noteq> {} \<and>
   next_bool example_env 0 = (True, 1) \<and>
   get_chromosome example_env 1 = (tc 1 [], 2) \<and>
   inject_candidate example_env example_strategy ([], example_run) =
     Inr ([tc 1 [1, 1]], \<lparr>world = 2, calls = [NextBool, GetChromosome]\<rparr>) \<and>
   next_bool example_env 1 = (False, 2) \<and>
   solutions (s_archive example_strategy) \<noteq> [] \<and>
   choice example_env (solutions (s_archive example_strategy)) 2 = (tc 1 [0, 5], 3) \<and>
   mutate example_env (clone example_env (tc 1 [0, 5])) 3 = (tc 2 [0, 5], 4) \<and>
   inject_candidate example_env example_strategy ([], \<lparr>world = 1, calls = []\<rparr>) =
     Inr ([tc 2 [0, 5]],
          \<lparr>world = 4, calls = [NextBool, Choice, Mutate (clone example_env (tc 1 [0, 5]))]\<rparr>) \<and>
   covered_goals (s_archive (example_strategy\<lparr>s_archive := \<lparr>covered_goals = {}, solutions = []\<rparr>\<rparr>)) = {} \<and>
   get_chromosome example_env 1 = (tc 1 [], 2) \<and>
   inject_candidate example_env
       (example_strategy\<lparr>s_archive := \<lparr>covered_goals = {}, solutions = []\<rparr>\<rparr>)
       ([], \<lparr>world = 1, calls = []\<rparr>) =
     Inr ([tc 1 [1, 1]], \<lparr>world = 2, calls = [GetChromosome]\<rparr>)"
proof -
  let ?empty = "example_strategy\<lparr>s_archive := \<lparr>covered_goals = {}, solutions = []\<rparr>\<rparr>"
  let ?r1 = "\<lparr>world = 1 :: nat, calls = [] :: test_case call list\<rparr>"
  have cov: "covered_goals (s_archive example_strategy) \<noteq> {}"
    and sols: "solutions (s_archive example_strategy) \<noteq> []"
    and ffs: "s_fitness_functions example_strategy = [0, 1]"
    and nocov: "covered_goals (s_archive ?empty) = {}"
    and ffs': "s_fitness_functions ?empty = [0, 1]"
    by (simp_all add: example_strategy_def)
  have nb0: "next_bool example_env (world example_run) = (True, 1)"
    and nb1: "next_bool example_env (world ?r1) = (False, 2)"
    and gc: "get_chromosome example_env 1 = (tc 1 [], 2)"
    and gc': "get_chromosome example_env (world ?r1) = (tc 1 [], 2)"
    and ch: "choice example_env (solutions (s_archive example_strategy)) 2 = (tc 1 [0, 5], 3)"
    and mu: "mutate example_env (clone example_env (tc 1 [0, 5])) 3 = (tc 2 [0, 5], 4)"
    by (simp_all add: example_env_def example_run_def example_strategy_def tc_def)
  have keep: "keep_offspring example_env
                (foldl (add_fitness_function example_env) (tc 1 []) [0, 1]) [] = [tc 1 [1, 1]]"
    and keep': "keep_offspring example_env (tc 2 [0, 5]) [] = [tc 2 [0, 5]]"
    by (simp_all add: keep_offspring_def example_env_def tc_def)
  note T = inject_candidate_branches [where env = example_env and off = "[]"]
  from T [where self = example_strategy and r = example_run and tch = "tc 1 []"
            and wb = 1 and wc = 2]
  have "covered_goals (s_archive example_strategy) \<noteq> {} \<longrightarrow>
        next_bool example_env (world example_run) = (True, 1) \<longrightarrow>
        get_chromosome example_env 1 = (tc 1 [], 2) \<longrightarrow>
        inject_candidate example_env example_strategy ([], example_run) =
          Inr (keep_offspring example_env
                 (foldl (add_fitness_function example_env) (tc 1 [])
                    (s_fitness_functions example_strategy)) [],
               \<lparr>world = 2, calls = calls example_run @ [NextBool, GetChromosome]\<rparr>)"
    by blast
  with cov nb0 gc
  have "inject_candidate example_env example_strategy ([], example_run) =
          Inr (keep_offspring example_env
                 (foldl (add_fitness_function example_env) (tc 1 [])
                    (s_fitness_functions example_strategy)) [],
               \<lparr>world = 2, calls = calls example_run @ [NextBool, GetChromosome]\<rparr>)"
    by blast
  then have e1: "inject_candidate example_env example_strategy ([], example_run) =
     Inr ([tc 1 [1, 1]], \<lparr>world = 2, calls = [NextBool, GetChromosome]\<rparr>)"
    unfolding ffs keep by (simp add: example_run_def)
  from T [where self = example_strategy and r = ?r1 and wb = 2 and wc = 3 and wm = 4
            and chosen = "tc 1 [0, 5]" and mutated = "tc 2 [0, 5]"]
  have "covered_goals (s_archive example_strategy) \<noteq> {} \<longrightarrow>
        next_bool example_env (world ?r1) = (False, 2) \<longrightarrow>
        solutions (s_archive example_strategy) \<noteq> [] \<longrightarrow>
        choice example_env (solutions (s_archive example_strategy)) 2 = (tc 1 [0, 5], 3) \<longrightarrow>
        mutate example_env (clone example_env (tc 1 [0, 5])) 3 = (tc 2 [0, 5], 4) \<longrightarrow>
        inject_candidate example_env example_strategy ([], ?r1) =
          Inr (keep_offspring example_env (tc 2 [0, 5]) [],
               \<lparr>world = 4, calls = calls ?r1 @
                  [NextBool, Choice, Mutate (clone example_env (tc 1 [0, 5]))]\<rparr>)"
    by blast
  with cov nb1 sols ch mu
  have "inject_candidate example_env example_strategy ([], ?r1) =
          Inr (keep_offspring example_env (tc 2 [0, 5]) [],
               \<lparr>world = 4, calls = calls ?r1 @
                  [NextBool, Choice, Mutate (clone example_env (tc 1 [0, 5]))]\<rparr>)"
    by blast
  then have e2: "inject_candidate example_env example_strategy ([], ?r1) =
     Inr ([tc 2 [0, 5]],
          \<lparr>world = 4, calls = [NextBool, Choice, Mutate (clone example_env (tc 1 [0, 5]))]\<rparr>)"
    unfolding keep' by simp
  from T [where self = ?empty and r = ?r1 and tch = "tc 1 []" and wc = 2]
  have "covered_goals (s_archive ?empty) = {} \<longrightarrow>
        get_chromosome example_env (world ?r1) = (tc 1 [], 2) \<longrightarrow>
        inject_candidate example_env ?empty ([], ?r1) =
          Inr (keep_offspring example_env
                 (foldl (add_fitness_function example_env) (tc 1 [])
                    (s_fitness_functions ?empty)) [],
               \<lparr>world = 2, calls = calls ?r1 @ [GetChromosome]\<rparr>)"
    by blast
  with nocov gc'
  have "inject_candidate example_env ?empty ([], ?r1) =
          Inr (keep_offspring example_env
                 (foldl (add_fitness_function example_env) (tc 1 [])
                    (s_fitness_functions ?empty)) [],
               \<lparr>world = 2, calls = calls ?r1 @ [GetChromosome]\<rparr>)"
    by blast
  then have e3: "inject_candidate example_env ?empty ([], ?r1) =
     Inr ([tc 1 [1, 1]], \<lparr>world = 2, calls = [GetChromosome]\<rparr>)"
    unfolding ffs' keep by simp
  from nb0 nb1 have "next_bool example_env 0 = (True, 1)" "next_bool example_env 1 = (False, 2)"
    by (simp_all add: example_run_def)
  with cov gc e1 sols ch mu e2 nocov e3 show ?thesis by blast
qed

subsection \<open>Comparison-object identifiers\<close>

declare str_nat.simps [simp del]

lemma digit_char_inj:
  assumes "d < 10" and "e < 10" and "digit_char d = digit_char e"
  shows "d = e"
proof -
  have "distinct ''0123456789''" by simp
  moreover have "d < length ''0123456789''" and "e < length ''0123456789''"
    using assms(1,2) by simp_all
  ultimately show ?thesis
    using assms(3) unfolding digit_char_def by (simp only: nth_eq_iff_index_eq)
qed

lemma digit_char_in_digits:
  assumes "d < 10"
  shows "digit_char d \<in> set ''0123456789''"
proof -
  have "d < length ''0123456789''" using assms by simp
  then show ?thesis unfolding digit_char_def by (rule nth_mem)
qed

lemma str_nat_nonempty: "str_nat n \<noteq> []"
  by (subst str_nat.simps) simp

lemma str_nat_digits: "set (str_nat n) \<subseteq> set ''0123456789''"
proof (induction n rule: str_nat.induct)
  case (1 n)
  show ?case
  proof (cases "n < 10")
    case True
    then have "str_nat n = [digit_char n]" by (subst str_nat.simps) simp
    with digit_char_in_digits [OF True] show ?thesis by simp
  next
    case False
    then have eq: "str_nat n = str_nat (n div 10) @ [digit_char (n mod 10)]"
      by (subst str_nat.simps) simp
    have "digit_char (n mod 10) \<in> set ''0123456789''"
      by (rule digit_char_in_digits) simp
    with 1 [OF False] show ?thesis unfolding eq by simp
  qed
qed

lemma str_nat_inj: "str_nat m = str_nat n \<Longrightarrow> m = n"
proof (induction m arbitrary: n rule: str_nat.induct)
  case (1 m)
  show ?case
  proof (cases "m < 10")
    case True
    then have m: "str_nat m = [digit_char m]" by (subst str_nat.simps) simp
    show ?thesis
    proof (cases "n < 10")
      case n: True
      then have "str_nat n = [digit_char n]" by (subst str_nat.simps) simp
      with m "1.prems" have "digit_char m = digit_char n" by simp
      with True n show ?thesis by (rule digit_char_inj)
    next
      case False
      then have "str_nat n = str_nat (n div 10) @ [digit_char (n mod 10)]"
        by (subst str_nat.simps) simp
      with m "1.prems" have "str_nat (n div 10) = []" by simp
      then show ?thesis by (simp add: str_nat_nonempty)
    qed
  next
    case False
    then have m: "str_nat m = str_nat (m div 10) @ [digit_char (m mod 10)]"
      by (subst str_nat.simps) simp
    show ?thesis
    proof (cases "n < 10")
      case True
      then have "str_nat n = [digit_char n]" by (subst str_nat.simps) simp
      with m "1.prems" have "str_nat (m div 10) = []" by simp
      then show ?thesis by (simp add: str_nat_nonempty)
    next
      case n: False
      then have "str_nat n = str_nat (n div 10) @ [digit_char (n mod 10)]"
        by (subst str_nat.simps) simp
      with m "1.prems" have q: "str_nat (m div 10) = str_nat (n div 10)"
        and d: "digit_char (m mod 10) = digit_char (n mod 10)"
        by simp_all
      from "1.IH" [OF False q] have "m div 10 = n div 10" .
      moreover have "m mod 10 = n mod 10"
        by (rule digit_char_inj [OF _ _ d]) simp_all
      ultimately show ?thesis by (metis div_mult_mod_eq)
    qed
  qed
qed

lemma str_nat_no_minus: "str_nat n \<noteq> CHR ''-'' # cs"
proof
  assume "str_nat n = CHR ''-'' # cs"
  then have "CHR ''-'' \<in> set (str_nat n)" by simp
  with str_nat_digits [of n] have "CHR ''-'' \<in> set ''0123456789''" by blast
  then show False by simp
qed

lemma str_int_inj:
  assumes "str_int i = str_int j"
  shows "i = j"
proof (cases "i < 0")
  case True
  show ?thesis
  proof (cases "j < 0")
    case j: True
    with True assms have "str_nat (nat (- i)) = str_nat (nat (- j))"
      by (simp add: str_int_def)
    then have "nat (- i) = nat (- j)" by (rule str_nat_inj)
    with True j show ?thesis by simp
  next
    case False
    with True assms have "str_nat (nat j) = CHR ''-'' # str_nat (nat (- i))"
      by (simp add: str_int_def)
    then show ?thesis by (simp add: str_nat_no_minus)
  qed
next
  case False
  show ?thesis
  proof (cases "j < 0")
    case True
    with False assms have "str_nat (nat i) = CHR ''-'' # str_nat (nat (- j))"
      by (simp add: str_int_def)
    then show ?thesis by (simp add: str_nat_no_minus)
  next
    case j: False
    with False assms have "str_nat (nat i) = str_nat (nat j)"
      by (simp add: str_int_def)
    then have "nat i = nat j" by (rule str_nat_inj)
    with False j show ?thesis by simp
  qed
qed

lemma map_upt_shift: "map f [0..<Suc n] = f 0 # map (\<lambda>k. f (Suc k)) [0..<n]"
  by (induction n) simp_all

lemma run_visitors_ids:
  "fst (run_visitors ops p) =
     map (\<lambda>k. COMPARISON_OBJECT_IDENTIFIER @ str_int (obj_index p + int k))
       [0..<length (filter is_get ops)] \<and>
   obj_index (snd (run_visitors ops p)) = obj_index p + int (length (filter is_get ops))"
proof (induction ops arbitrary: p)
  case Nil
  show ?case by simp
next
  case (Cons a ops)
  show ?case
  proof (cases a)
    case (Init self)
    have "obj_index (init_visitor self p) = obj_index p" by (simp add: init_visitor_def)
    with Cons [of "init_visitor self p"] Init show ?thesis by simp
  next
    case (GetComparisonObject self)
    obtain obj_id p' where g: "get_comparison_object self p = (obj_id, p')"
      by (cases "get_comparison_object self p")
    then have id: "obj_id = COMPARISON_OBJECT_IDENTIFIER @ str_int (obj_index p)"
      and ix: "obj_index p' = obj_index p + 1"
      by (auto simp: get_comparison_object_def get_comparison_object_name_def Let_def)
    let ?n = "length (filter is_get ops)"
    let ?f = "\<lambda>k. COMPARISON_OBJECT_IDENTIFIER @ str_int (obj_index p + int k)"
    have "fst (run_visitors (a # ops) p) = obj_id # fst (run_visitors ops p')"
      and "snd (run_visitors (a # ops) p) = snd (run_visitors ops p')"
      using GetComparisonObject g by (simp_all add: split_beta)
    moreover have "fst (run_visitors ops p') = map (\<lambda>k. ?f (Suc k)) [0..<?n]"
    proof -
      have shift: "obj_index p' + int k = obj_index p + int (Suc k)" for k
        using ix by simp
      from Cons [of p']
      have "fst (run_visitors ops p') =
              map (\<lambda>k. COMPARISON_OBJECT_IDENTIFIER @ str_int (obj_index p' + int k)) [0..<?n]"
        by (rule conjunct1)
      then show ?thesis by (simp only: shift)
    qed
    moreover have "obj_index (snd (run_visitors ops p')) = obj_index p + int (Suc ?n)"
      using Cons [of p'] ix by simp
    moreover have "length (filter is_get (a # ops)) = Suc ?n"
      using GetComparisonObject by simp
    moreover have "obj_id = ?f 0" using id by simp
    ultimately show ?thesis
      by (simp only: map_upt_shift [of ?f ?n])
  qed
qed

text \<open>
  C10: \<open>_get_comparison_object\<close>, on any instance, returns \<open>"obj"\<close> followed by the
  current value of the one counter of the class, adds one to the counter and pushes the
  name on the stack of that instance, leaving the other stacks alone; creating a visitor
  does not touch the counter. So over any history of a process the identifiers returned
  are \<open>obj\<close>\<open>n\<close>, \<open>obj\<close>\<open>n+1\<close>, ... in the order of the calls, whatever the instances:
  they increase strictly and no identifier is returned twice.
\<close>

theorem get_comparison_object_shared_counter:
  "fst (get_comparison_object self p) = ''obj'' @ str_int (obj_index p) \<and>
   obj_index (snd (get_comparison_object self p)) = obj_index p + 1 \<and>
   obj_stack (snd (get_comparison_object self p)) self =
     obj_stack p self @ [''obj'' @ str_int (obj_index p)] \<and>
   (\<forall>other. other \<noteq> self \<longrightarrow>
      obj_stack (snd (get_comparison_object self p)) other = obj_stack p other) \<and>
   obj_index (init_visitor self p) = obj_index p \<and>
   fst (run_visitors ops p) =
     map (\<lambda>k. ''obj'' @ str_int (obj_index p + int k)) [0..<length (filter is_get ops)] \<and>
   obj_index (snd (run_visitors ops p)) = obj_index p + int (length (filter is_get ops)) \<and>
   distinct (fst (run_visitors ops p))"
proof -
  have one: "fst (get_comparison_object self p) = ''obj'' @ str_int (obj_index p) \<and>
   obj_index (snd (get_comparison_object self p)) = obj_index p + 1 \<and>
   obj_stack (snd (get_comparison_object self p)) self =
     obj_stack p self @ [''obj'' @ str_int (obj_index p)] \<and>
   (\<forall>other. other \<noteq> self \<longrightarrow>
      obj_stack (snd (get_comparison_object self p)) other = obj_stack p other) \<and>
   obj_index (init_visitor self p) = obj_index p"
    by (simp add: get_comparison_object_def get_comparison_object_name_def Let_def
          COMPARISON_OBJECT_IDENTIFIER_def init_visitor_def)
  let ?f = "\<lambda>k. ''obj'' @ str_int (obj_index p + int k)"
  have ids: "fst (run_visitors ops p) = map ?f [0..<length (filter is_get ops)]"
    and ix: "obj_index (snd (run_visitors ops p)) = obj_index p + int (length (filter is_get ops))"
    using run_visitors_ids [of ops p] by (simp_all add: COMPARISON_OBJECT_IDENTIFIER_def)
  have "inj_on ?f (set [0..<length (filter is_get ops)])"
  proof (rule inj_onI)
    fix j k
    assume "?f j = ?f k"
    then have "str_int (obj_index p + int j) = str_int (obj_index p + int k)" by simp
    then have "obj_index p + int j = obj_index p + int k" by (rule str_int_inj)
    then show "j = k" by simp
  qed
  then have "distinct (map ?f [0..<length (filter is_get ops)])"
    by (simp add: distinct_map)
  with one ids ix show ?thesis by simp
qed

lemma example_visitors:
  "fst (run_visitors [Init 0, GetComparisonObject 0, Init 1, GetComparisonObject 1,
                      GetComparisonObject 0] \<lparr>obj_index = 9, obj_stack = (\<lambda>_. [])\<rparr>) =
     [''obj9'', ''obj10'', ''obj11'']"
  "obj_stack (snd (run_visitors [Init 0, GetComparisonObject 0, Init 1, GetComparisonObject 1,
                      GetComparisonObject 0] \<lparr>obj_index = 9, obj_stack = (\<lambda>_. [])\<rparr>)) 0 =
     [''obj9'', ''obj11'']"
  "obj_stack (snd (run_visitors [Init 0, GetComparisonObject 0, Init 1, GetComparisonObject 1,
                      GetComparisonObject 0] \<lparr>obj_index = 9, obj_stack = (\<lambda>_. [])\<rparr>)) 1 =
     [''obj10'']"
  by code_simp+

theorem get_comparison_object_shared_counter_witness:
  "fst (run_visitors [Init 0, GetComparisonObject 0, Init 1, GetComparisonObject 1,
                      GetComparisonObject 0] \<lparr>obj_index = 9, obj_stack = (\<lambda>_. [])\<rparr>) =
     [''obj9'', ''obj10'', ''obj11''] \<and>
   distinct (fst (run_visitors [Init 0, GetComparisonObject 0, Init 1, GetComparisonObject 1,
                      GetComparisonObject 0] \<lparr>obj_index = 9, obj_stack = (\<lambda>_. [])\<rparr>)) \<and>
   obj_index (snd (run_visitors [Init 0, GetComparisonObject 0, Init 1, GetComparisonObject 1,
                      GetComparisonObject 0] \<lparr>obj_index = 9, obj_stack = (\<lambda>_. [])\<rparr>)) = 12 \<and>
   obj_stack (snd (run_visitors [Init 0, GetComparisonObject 0, Init 1, GetComparisonObject 1,
                      GetComparisonObject 0] \<lparr>obj_index = 9, obj_stack = (\<lambda>_. [])\<rparr>)) 0 =
     [''obj9'', ''obj11''] \<and>
   obj_stack (snd (run_visitors [Init 0, GetComparisonObject 0, Init 1, GetComparisonObject 1,
                      GetComparisonObject 0] \<lparr>obj_index = 9, obj_stack = (\<lambda>_. [])\<rparr>)) 1 =
     [''obj10'']"
proof -
  let ?ops = "[Init 0, GetComparisonObject 0, Init 1, GetComparisonObject 1, GetComparisonObject 0]"
  let ?p = "\<lparr>obj_index = 9, obj_stack = (\<lambda>_. [])\<rparr>"
  from get_comparison_object_shared_counter [of 0 ?p ?ops]
  have "distinct (fst (run_visitors ?ops ?p))"
    and "obj_index (snd (run_visitors ?ops ?p)) = obj_index ?p + int (length (filter is_get ?ops))"
    by blast+
  then have "distinct (fst (run_visitors ?ops ?p))"
    and "obj_index (snd (run_visitors ?ops ?p)) = 12"
    by simp_all
  with example_visitors show ?thesis by blast
qed

end
